theory Spec2Isabelle
  imports Main
begin

section \<open>Text as Python sees it\<close>

text \<open>
  A Python \<open>str\<close> is a sequence of Unicode code points, and every index the source
  computes (\<open>find\<close>, slices, the offsets \<open>+ 50\<close>, \<open>+ 100\<close>, \<open>+ 500\<close>) counts code
  points. The divider glyph of \<open>CLAUDE.md\<close> is U+2550, outside the 8-bit \<open>char\<close>, so
  a text is a list of code points here; ASCII literals are written as HOL strings and
  converted by \<open>ustr\<close>.
\<close>

type_synonym ustring = "nat list"

definition ustr :: "string \<Rightarrow> ustring" where
  "ustr s = map of_char s"

definition NL :: nat where
  "NL = 10"

text \<open>\<open>s.startswith(p)\<close>.\<close>

fun startswith :: "ustring \<Rightarrow> ustring \<Rightarrow> bool" where
  "startswith s [] = True"
| "startswith [] (p # ps) = False"
| "startswith (c # s) (p # ps) = (if c = p then startswith s ps else False)"

text \<open>
  \<open>find_at sub s i\<close> scans the text \<open>s\<close>, which begins at index \<open>i\<close> of the whole
  string, for the first occurrence of \<open>sub\<close>.
\<close>

fun find_at :: "ustring \<Rightarrow> ustring \<Rightarrow> nat \<Rightarrow> nat option" where
  "find_at sub [] i = (if sub = [] then Some i else None)"
| "find_at sub (c # cs) i =
     (if startswith (c # cs) sub then Some i else find_at sub cs (Suc i))"

text \<open>
  \<open>content.find(sub, start)\<close> with \<open>start \<ge> 0\<close>: the lowest index \<open>\<ge> start\<close> where
  \<open>sub\<close> occurs; Python's \<open>-1\<close> is \<open>None\<close>. A start beyond the end finds nothing.
\<close>

definition str_find :: "ustring \<Rightarrow> ustring \<Rightarrow> nat \<Rightarrow> nat option" where
  "str_find content sub start =
     (if length content < start then None else find_at sub (drop start content) start)"

text \<open>\<open>sub in content\<close>.\<close>

definition contains :: "ustring \<Rightarrow> ustring \<Rightarrow> bool" where
  "contains content sub = (str_find content sub 0 \<noteq> None)"

text \<open>
  \<open>s.replace(old, new)\<close>: the occurrences of \<open>old\<close> are replaced from left to right
  without overlap. For an empty \<open>old\<close> Python puts \<open>new\<close> before every character and
  at the end.
\<close>

function replace_from :: "ustring \<Rightarrow> ustring \<Rightarrow> ustring \<Rightarrow> ustring" where
  "replace_from old new [] = []"
| "replace_from old new (c # cs) =
     (if startswith (c # cs) old \<and> old \<noteq> []
      then new @ replace_from old new (drop (length old) (c # cs))
      else c # replace_from old new cs)"
  by pat_completeness auto
termination
  by (relation "measure (\<lambda>(old, new, s). length s)") auto

definition replace :: "ustring \<Rightarrow> ustring \<Rightarrow> ustring \<Rightarrow> ustring" where
  "replace s old new =
     (if old = [] then new @ concat (map (\<lambda>c. c # new) s) else replace_from old new s)"

text \<open>\<open>sep.join(parts)\<close>.\<close>

fun join :: "ustring \<Rightarrow> ustring list \<Rightarrow> ustring" where
  "join sep [] = []"
| "join sep [p] = p"
| "join sep (p # q # ps) = p @ sep @ join sep (q # ps)"

text \<open>\<open>f"{s:<w}"\<close>: left-justified in a field of width \<open>w\<close>, padded with spaces.\<close>

definition ljust :: "nat \<Rightarrow> ustring \<Rightarrow> ustring" where
  "ljust w s = s @ replicate (w - length s) 32"

text \<open>\<open>str(n)\<close> for a length.\<close>

fun str_of_nat :: "nat \<Rightarrow> ustring" where
  "str_of_nat n = (if n < 10 then [48 + n] else str_of_nat (n div 10) @ [48 + n mod 10])"

declare str_of_nat.simps [simp del]

section \<open>Regular expressions, as \<open>re\<close> matches them\<close>

text \<open>
  The patterns of the source are sequences of literals, single-character classes under
  \<open>*\<close>, \<open>+\<close> and \<open>{0,n}\<close>, one optional group, a lookahead of a literal and \<open>$\<close>.
  \<open>rx pat s\<close> matches \<open>pat\<close> at the beginning of \<open>s\<close> the way a backtracking matcher
  does (a greedy repetition takes as much as it can and gives back one character at a
  time) and returns the text left after the match.
\<close>

datatype item =
    Lit ustring
  | One "nat \<Rightarrow> bool"
  | Star "nat \<Rightarrow> bool"
  | Plus "nat \<Rightarrow> bool"
  | Upto nat "nat \<Rightarrow> bool"
  | Opt "item list"
  | Ahead ustring
  | End

function rx :: "item list \<Rightarrow> ustring \<Rightarrow> ustring option" where
  "rx [] s = Some s"
| "rx (Lit l # r) s = (if startswith s l then rx r (drop (length l) s) else None)"
| "rx (One p # r) [] = None"
| "rx (One p # r) (c # cs) = (if p c then rx r cs else None)"
| "rx (Star p # r) [] = rx r []"
| "rx (Star p # r) (c # cs) =
     (if p c
      then (case rx (Star p # r) cs of Some t \<Rightarrow> Some t | None \<Rightarrow> rx r (c # cs))
      else rx r (c # cs))"
| "rx (Plus p # r) [] = None"
| "rx (Plus p # r) (c # cs) = (if p c then rx (Star p # r) cs else None)"
| "rx (Upto n p # r) [] = rx r []"
| "rx (Upto n p # r) (c # cs) =
     (if n \<noteq> 0 \<and> p c
      then (case rx (Upto (n - 1) p # r) cs of Some t \<Rightarrow> Some t | None \<Rightarrow> rx r (c # cs))
      else rx r (c # cs))"
| "rx (Opt g # r) s = (case rx (g @ r) s of Some t \<Rightarrow> Some t | None \<Rightarrow> rx r s)"
| "rx (Ahead l # r) s = (if startswith s l then rx r s else None)"
| "rx (End # r) s = (if s = [] \<or> s = [NL] then rx r s else None)"
  by pat_completeness auto
termination
  by (relation "measures [\<lambda>(pat, s). length s, \<lambda>(pat, s). size_list size pat]") auto

text \<open>\<open>re.match(pat, s)\<close> as a truth value.\<close>

definition re_match :: "item list \<Rightarrow> ustring \<Rightarrow> bool" where
  "re_match pat s = (rx pat s \<noteq> None)"

text \<open>\<open>re.search(pat, s)\<close> as a truth value: a match at some position.\<close>

fun re_search :: "item list \<Rightarrow> ustring \<Rightarrow> bool" where
  "re_search pat [] = (rx pat [] \<noteq> None)"
| "re_search pat (c # cs) = (if rx pat (c # cs) \<noteq> None then True else re_search pat cs)"

text \<open>
  \<open>re.sub(pat, repl, s)\<close> for a literal replacement: the leftmost match is replaced and
  the scan goes on after it; a character no match begins at is copied. (An empty match
  is replaced and the scan moves one character on.)
\<close>

function re_sub :: "item list \<Rightarrow> ustring \<Rightarrow> ustring \<Rightarrow> ustring" where
  "re_sub pat repl s =
     (case rx pat s of
        Some t \<Rightarrow>
          (if length t < length s then repl @ re_sub pat repl t
           else (case s of [] \<Rightarrow> repl | c # cs \<Rightarrow> repl @ c # re_sub pat repl cs))
      | None \<Rightarrow> (case s of [] \<Rightarrow> [] | c # cs \<Rightarrow> c # re_sub pat repl cs))"
  by pat_completeness auto
termination
  by (relation "measure (\<lambda>(pat, repl, s). length s)") auto

declare re_sub.simps [simp del]

text \<open>The character classes of the source's patterns.\<close>

definition alnum :: "nat \<Rightarrow> bool" where
  \<comment> \<open>\<open>[a-zA-Z0-9]\<close>\<close>
  "alnum c = ((97 \<le> c \<and> c \<le> 122) \<or> (65 \<le> c \<and> c \<le> 90) \<or> (48 \<le> c \<and> c \<le> 57))"

definition alnum_hyphen :: "nat \<Rightarrow> bool" where
  \<comment> \<open>\<open>[a-zA-Z0-9-]\<close>\<close>
  "alnum_hyphen c = (alnum c \<or> c = 45)"

definition space :: "nat \<Rightarrow> bool" where
  \<comment> \<open>\<open>\s\<close> on a \<open>str\<close>: the code points \<open>str.isspace\<close> accepts\<close>
  "space c = ((9 \<le> c \<and> c \<le> 13) \<or> (28 \<le> c \<and> c \<le> 32) \<or> c = 133 \<or> c = 160 \<or> c = 5760
     \<or> (8192 \<le> c \<and> c \<le> 8202) \<or> c = 8232 \<or> c = 8233 \<or> c = 8239 \<or> c = 8287 \<or> c = 12288)"

definition newline :: "nat \<Rightarrow> bool" where
  \<comment> \<open>\<open>\n\<close>\<close>
  "newline c = (c = NL)"

section \<open>Loops over a text end\<close>

text \<open>
  The source's \<open>while\<close> loops scan or shrink a text. Each is a recursive function here,
  and these facts are what their termination proofs rest on.
\<close>

lemma find_at_bounds:
  "find_at sub s i = Some j \<Longrightarrow> i \<le> j \<and> j \<le> i + length s"
  by (induction s arbitrary: i) (fastforce split: if_splits)+

lemma str_find_bounds:
  "str_find content sub start = Some j \<Longrightarrow> start \<le> j \<and> j \<le> length content"
  using find_at_bounds [of sub "drop start content" start j]
  by (auto simp: str_find_def split: if_splits)

lemma startswith_length: "startswith s p \<Longrightarrow> length p \<le> length s"
  by (induction s p rule: startswith.induct) (auto split: if_splits)

lemma replace_from_length:
  "length new \<le> length old \<Longrightarrow> length (replace_from old new s) \<le> length s"
proof (induction old new s rule: replace_from.induct)
  case (1 old new)
  then show ?case by simp
next
  case (2 old new c cs)
  show ?case
  proof (cases "startswith (c # cs) old \<and> old \<noteq> []")
    case True
    then have "length old \<le> length (c # cs)" by (auto dest: startswith_length)
    with True 2 show ?thesis by simp
  next
    case False
    with 2 show ?thesis by auto
  qed
qed

lemma replace_from_shrinks:
  "length new < length old \<Longrightarrow> find_at old s i \<noteq> None
     \<Longrightarrow> length (replace_from old new s) < length s"
proof (induction old new s arbitrary: i rule: replace_from.induct)
  case (1 old new)
  then show ?case by (simp split: if_splits)
next
  case (2 old new c cs)
  show ?case
  proof (cases "startswith (c # cs) old \<and> old \<noteq> []")
    case True
    then have l: "length old \<le> length (c # cs)" by (auto dest: startswith_length)
    have "length (replace_from old new (drop (length old) (c # cs)))
            \<le> length (drop (length old) (c # cs))"
      using "2.prems"(1) by (intro replace_from_length) simp
    with True l "2.prems"(1) show ?thesis by simp
  next
    case False
    have "old \<noteq> []" using "2.prems"(1) by auto
    with False have n: "\<not> startswith (c # cs) old" by simp
    with "2.prems"(2) have "find_at old cs (Suc i) \<noteq> None" by simp
    with "2.IH"(2) [OF False "2.prems"(1)] n show ?thesis by simp
  qed
qed

lemma replace_shrinks:
  "length new < length old \<Longrightarrow> contains s old \<Longrightarrow> length (replace s old new) < length s"
  using replace_from_shrinks [of new old s 0]
  by (auto simp: contains_def str_find_def replace_def)

lemma rx_suffix_length: "rx pat s = Some t \<Longrightarrow> length t \<le> length s"
proof (induction pat s arbitrary: t rule: rx.induct)
  case (2 l r s)
  then show ?case by (fastforce split: if_splits)
next
  case (4 p r c cs)
  then show ?case by (fastforce split: if_splits)
next
  case (6 p r c cs)
  then show ?case by (fastforce split: if_splits option.splits)
next
  case (8 p r c cs)
  then show ?case by (fastforce split: if_splits)
next
  case (10 n p r c cs)
  then show ?case by (fastforce split: if_splits option.splits)
next
  case (11 g r s)
  then show ?case by (fastforce split: option.splits)
qed (auto split: if_splits)

lemma rx_Lit_shrinks:
  assumes "rx (Lit l # r) s = Some t" and "l \<noteq> []"
  shows "length t < length s"
proof -
  from assms(1) have sw: "startswith s l" and m: "rx r (drop (length l) s) = Some t"
    by (auto split: if_splits)
  from sw have "length l \<le> length s" by (rule startswith_length)
  moreover from m have "length t \<le> length s - length l"
    using rx_suffix_length by fastforce
  moreover from assms(2) have "0 < length l" by simp
  ultimately show ?thesis by linarith
qed

lemma re_sub_Nil:
  "re_sub pat repl [] = (case rx pat [] of Some t \<Rightarrow> repl | None \<Rightarrow> [])"
  by (subst re_sub.simps) (simp split: option.splits)

lemma re_sub_Cons:
  "re_sub pat repl (c # cs) =
     (case rx pat (c # cs) of
        Some t \<Rightarrow> if length t < Suc (length cs) then repl @ re_sub pat repl t
                  else repl @ c # re_sub pat repl cs
      | None \<Rightarrow> c # re_sub pat repl cs)"
  by (subst re_sub.simps) (simp split: option.splits)

lemma re_sub_length: "length (re_sub pat [] s) \<le> length s"
proof (induction s rule: length_induct)
  case (1 s)
  show ?case
  proof (cases s)
    case Nil
    then show ?thesis by (simp add: re_sub_Nil split: option.splits)
  next
    case (Cons c cs)
    have cs: "length (re_sub pat [] cs) \<le> length cs" using 1 Cons by simp
    show ?thesis
    proof (cases "rx pat (c # cs)")
      case None
      with cs Cons show ?thesis by (simp add: re_sub_Cons)
    next
      case (Some t)
      show ?thesis
      proof (cases "length t < Suc (length cs)")
        case True
        with 1 Cons have "length (re_sub pat [] t) \<le> length t" by simp
        with True Some Cons show ?thesis by (simp add: re_sub_Cons)
      next
        case False
        with cs Some Cons show ?thesis by (simp add: re_sub_Cons)
      qed
    qed
  qed
qed

lemma re_sub_shrinks:
  "re_search (Lit l # r) s \<Longrightarrow> l \<noteq> [] \<Longrightarrow> length (re_sub (Lit l # r) [] s) < length s"
proof (induction s)
  case Nil
  then show ?case by (cases l) auto
next
  case (Cons c cs)
  show ?case
  proof (cases "rx (Lit l # r) (c # cs)")
    case (Some t)
    have lt: "length t < length (c # cs)" using rx_Lit_shrinks [OF Some Cons.prems(2)] .
    have "length (re_sub (Lit l # r) [] t) \<le> length t" by (rule re_sub_length)
    with Some lt show ?thesis by (simp add: re_sub_Cons)
  next
    case None
    with Cons.prems(1) have "re_search (Lit l # r) cs" by simp
    with Cons.IH Cons.prems(2) None show ?thesis by (simp add: re_sub_Cons)
  qed
qed

section \<open>claude\_config.py: the Mentat section of CLAUDE.md\<close>

definition MENTAT_SECTION_START :: ustring where
  "MENTAT_SECTION_START = ustr ''# '' @ replicate 51 9552"

definition MENTAT_SECTION_HEADER :: ustring where
  "MENTAT_SECTION_HEADER = ustr ''# Mentat Framework Components''"

definition MENTAT_SECTION_END :: ustring where
  "MENTAT_SECTION_END = ustr ''# '' @ replicate 51 9552"

text \<open>
  The installed components, as \<open>_scan_commands\<close>, \<open>_scan_agents\<close> and \<open>_scan_scripts\<close>
  report them: lists of dictionaries with a \<open>name\<close> and a \<open>desc\<close>. The scans read the
  installation directories and are inputs here.
\<close>

record entry =
  name :: ustring
  desc :: ustring

record inventory =
  commands :: "entry list"
  agents :: "entry list"
  scripts :: "entry list"

definition format_commands :: "entry list \<Rightarrow> ustring" where
  "format_commands cmds =
     (if cmds = [] then ustr ''# No Mentat commands installed''
      else join [NL] (map (\<lambda>cmd. ljust 20 (name cmd) @ ustr '' # '' @ desc cmd) cmds))"

definition format_agents :: "entry list \<Rightarrow> ustring" where
  "format_agents ags =
     (if ags = [] then ustr ''# No Mentat agents installed''
      else join [NL] (map (\<lambda>agent. ljust 20 (name agent) @ ustr '' # '' @ desc agent) ags))"

definition format_scripts :: "entry list \<Rightarrow> ustring" where
  "format_scripts scs =
     (if scs = [] then ustr ''# No Mentat scripts installed''
      else join [NL]
             (map (\<lambda>script. ustr ''# - '' @ ljust 25 (name script) @ ustr '' # '' @ desc script) scs))"

text \<open>
  \<open>_generate_mentat_section\<close>: the template begins with a newline (the line break after
  the opening quotes) and ends with the newline after the component count.
\<close>

definition generate_mentat_section :: "inventory \<Rightarrow> ustring" where
  "generate_mentat_section comps = join [NL]
     [ [],
      MENTAT_SECTION_START,
      MENTAT_SECTION_HEADER,
      MENTAT_SECTION_END,
      [],
      ustr ''# Mentat = Personal Claude Code customization framework'',
      ustr ''# Built on SuperClaude v4.0.8 | Add features as needed'',
      [],
      ustr ''# Mentat Commands (Extensible)'',
      format_commands (commands comps),
      [],
      ustr ''# Mentat Agents'',
      format_agents (agents comps),
      [],
      ustr ''# Mentat Configuration'',
      ustr ''# - Config: ~/.mentat/config.json (0600)'',
      ustr ''# - Dotfiles: ~/dotfiles/ (symlinked)'',
      ustr ''# - Lock: ~/.mentat/sync.lock (0700)'',
      ustr ''# - Logs: ~/.mentat/sync.log'',
      [],
      ustr ''# Mentat Security'',
      ustr ''# - SSH auth with passphrase protection'',
      ustr ''# - Input validation (emails, usernames, URLs)'',
      ustr ''# - Atomic permissions (0600 keys, 0700 dirs)'',
      ustr ''# - No credential storage'',
      ustr ''# - Sanitized commits'',
      [],
      ustr ''# Mentat Scripts'',
      format_scripts (scripts comps),
      [],
      ustr ''# Component Count: Commands: '' @ str_of_nat (length (commands comps))
        @ ustr '' | Agents: '' @ str_of_nat (length (agents comps))
        @ ustr '' | Scripts: '' @ str_of_nat (length (scripts comps)),
      [] ]"

subsection \<open>\<open>_clean_duplicate_sections\<close>\<close>

datatype kind = Orphan | Proper

definition start_pattern :: ustring where
  "start_pattern = MENTAT_SECTION_START @ [NL] @ MENTAT_SECTION_HEADER"

definition orphan_patterns :: "ustring list" where
  "orphan_patterns =
     [NL # ustr ''# Mentat = Personal Claude Code customization framework'',
      NL # ustr ''# Mentat Commands (Dotfiles'',
      NL # ustr ''# Mentat Commands (Extensible)'']"

definition component_count :: ustring where
  "component_count = ustr ''# Component Count:''"

text \<open>
  The scan \<open>while True: idx = content.find(pattern, search_pos) ... search_pos = idx + 1\<close>:
  every index where the pattern occurs, in order.
\<close>

function find_all :: "ustring \<Rightarrow> ustring \<Rightarrow> nat \<Rightarrow> nat list" where
  "find_all content pattern search_pos =
     (case str_find content pattern search_pos of
        None \<Rightarrow> []
      | Some idx \<Rightarrow> idx # find_all content pattern (idx + 1))"
  by pat_completeness auto
termination
proof (relation "measure (\<lambda>(content, pattern, search_pos). Suc (length content) - search_pos)")
  show "wf (measure (\<lambda>(content, pattern, search_pos). Suc (length content) - search_pos))"
    by simp
next
  fix content pattern :: ustring and search_pos idx :: nat
  assume "str_find content pattern search_pos = Some idx"
  then have "search_pos \<le> idx \<and> idx \<le> length content" by (rule str_find_bounds)
  then show "((content, pattern, idx + 1), (content, pattern, search_pos))
      \<in> measure (\<lambda>(content, pattern, search_pos). Suc (length content) - search_pos)"
    by simp arith
qed

declare find_all.simps [simp del]

text \<open>
  \<open>any(start <= idx <= start + 500 for start, type in sections_to_remove
  if type == "proper")\<close>.
\<close>

definition is_part_of_proper :: "(nat \<times> kind) list \<Rightarrow> nat \<Rightarrow> bool" where
  "is_part_of_proper sections idx =
     list_ex (\<lambda>(start, type). type = Proper \<and> start \<le> idx \<and> idx \<le> start + 500) sections"

text \<open>
  One orphan pattern's scan: the occurrences outside the window of every proper block
  are appended as orphans. (The scan appends orphans only, so the proper entries the
  test reads are those of \<open>sections\<close> at the start of the scan.)
\<close>

definition scan_orphans :: "ustring \<Rightarrow> (nat \<times> kind) list \<Rightarrow> ustring \<Rightarrow> (nat \<times> kind) list" where
  "scan_orphans content sections pattern =
     sections @ map (\<lambda>idx. (idx, Orphan))
                  (filter (\<lambda>idx. \<not> is_part_of_proper sections idx) (find_all content pattern 0))"

definition sections_to_remove :: "ustring \<Rightarrow> (nat \<times> kind) list" where
  "sections_to_remove content =
     foldl (scan_orphans content)
       (map (\<lambda>idx. (idx, Proper)) (find_all content start_pattern 0))
       orphan_patterns"

text \<open>
  \<open>sections_to_remove.sort()\<close>: tuples in Python's order, by index and then by the
  type string (\<open>"orphan" < "proper"\<close>).
\<close>

fun section_le :: "nat \<times> kind \<Rightarrow> nat \<times> kind \<Rightarrow> bool" where
  "section_le (i, k) (j, l) = (i < j \<or> (i = j \<and> (k = Orphan \<or> l = Proper)))"

fun insert_section :: "nat \<times> kind \<Rightarrow> (nat \<times> kind) list \<Rightarrow> (nat \<times> kind) list" where
  "insert_section x [] = [x]"
| "insert_section x (y # ys) = (if section_le x y then x # y # ys else y # insert_section x ys)"

definition sort_sections :: "(nat \<times> kind) list \<Rightarrow> (nat \<times> kind) list" where
  "sort_sections xs = foldr insert_section xs []"

definition end_markers :: "ustring list" where
  "end_markers =
     [ [NL, NL] @ ustr ''# '' @ replicate 7 9552,
      [NL, NL] @ ustr ''# SuperClaude'',
      [NL, NL] @ ustr ''# Core'',
      NL # ustr ''# Mentat = Personal'',
      NL # ustr ''# Mentat Commands'']"

text \<open>
  \<open>end_idx = len(text); for marker in markers: idx = text.find(marker, search_start);
  if idx != -1 and idx < end_idx: end_idx = idx\<close>.
\<close>

definition nearest_marker :: "ustring \<Rightarrow> nat \<Rightarrow> ustring list \<Rightarrow> nat" where
  "nearest_marker text search_start markers =
     foldl (\<lambda>end_idx marker.
              case str_find text marker search_start of
                Some idx \<Rightarrow> if idx < end_idx then idx else end_idx
              | None \<Rightarrow> end_idx)
       (length text) markers"

text \<open>
  The body of the removal loop. \<open>cleaned.find("\n", component_count_idx) + 1\<close> is
  \<open>0\<close> when no newline follows the component count (\<open>-1 + 1\<close>).
\<close>

definition remove_fragment :: "ustring \<Rightarrow> nat \<Rightarrow> ustring" where
  "remove_fragment cleaned start_idx =
     (let end_idx =
        (case str_find cleaned component_count start_idx of
           Some component_count_idx \<Rightarrow>
             (case str_find cleaned [NL] component_count_idx of
                Some nl \<Rightarrow> nl + 1
              | None \<Rightarrow> 0)
         | None \<Rightarrow> nearest_marker cleaned (start_idx + 50) end_markers)
      in take start_idx cleaned @ drop end_idx cleaned)"

text \<open>\<open>while "\n\n\n\n" in cleaned: cleaned = cleaned.replace("\n\n\n\n", "\n\n\n")\<close>.\<close>

function collapse_blank_lines :: "ustring \<Rightarrow> ustring" where
  "collapse_blank_lines cleaned =
     (if contains cleaned [NL, NL, NL, NL]
      then collapse_blank_lines (replace cleaned [NL, NL, NL, NL] [NL, NL, NL])
      else cleaned)"
  by pat_completeness auto
termination
  by (relation "measure length") (auto intro: replace_shrinks)

declare collapse_blank_lines.simps [simp del]

definition divider_pattern :: "item list" where
  "divider_pattern =
     [Lit (ustr ''# '' @ replicate 51 9552), Lit [NL], Star space, Star newline,
      Lit (ustr ''# '' @ replicate 51 9552)]"

definition lone_divider :: "item list" where
  "lone_divider =
     [Lit [NL], Lit (ustr ''# '' @ replicate 51 9552), Lit [NL], Star space, Plus newline,
      Ahead (ustr ''# '' @ replicate 7 9552)]"

text \<open>
  \<open>while re.search(divider_pattern, cleaned): cleaned = re.sub(divider_pattern, '', cleaned)\<close>.
\<close>

function remove_empty_dividers :: "ustring \<Rightarrow> ustring" where
  "remove_empty_dividers cleaned =
     (if re_search divider_pattern cleaned
      then remove_empty_dividers (re_sub divider_pattern [] cleaned)
      else cleaned)"
  by pat_completeness auto
termination
proof (relation "measure length")
  show "wf (measure length)" by simp
next
  fix cleaned :: ustring
  assume "re_search divider_pattern cleaned"
  then have "length (re_sub divider_pattern [] cleaned) < length cleaned"
    unfolding divider_pattern_def by (rule re_sub_shrinks) (simp add: ustr_def)
  then show "(re_sub divider_pattern [] cleaned, cleaned) \<in> measure length" by simp
qed

declare remove_empty_dividers.simps [simp del]

definition clean_duplicate_sections :: "ustring \<Rightarrow> ustring" where
  "clean_duplicate_sections content =
     (let sections = sort_sections (sections_to_remove content) in
      if sections \<noteq> [] then
        (let cleaned = foldl (\<lambda>cleaned (start_idx, section_type). remove_fragment cleaned start_idx)
                         content (rev sections);
             cleaned = collapse_blank_lines cleaned;
             cleaned = remove_empty_dividers cleaned;
             cleaned = re_sub lone_divider [NL, NL] cleaned
         in cleaned)
      else content)"

subsection \<open>\<open>update_claude_md\<close> and \<open>remove_mentat_section\<close> on the text\<close>

definition endswith_newline :: "ustring \<Rightarrow> bool" where
  "endswith_newline content = (content \<noteq> [] \<and> last content = NL)"

text \<open>The text \<open>update_claude_md\<close> writes, from the text it read (or \<open>""\<close>).\<close>

definition update_text :: "inventory \<Rightarrow> ustring \<Rightarrow> ustring" where
  "update_text comps content0 =
     (let content = clean_duplicate_sections content0;
          new_section = generate_mentat_section comps in
      if contains content MENTAT_SECTION_HEADER then
        (case str_find content start_pattern 0 of
           Some start_idx \<Rightarrow>
             (let end_idx =
                (case str_find content component_count start_idx of
                   Some component_count_idx \<Rightarrow>
                     (case str_find content [NL] component_count_idx of
                        Some end_of_line \<Rightarrow> end_of_line + 1
                      | None \<Rightarrow> length content)
                 | None \<Rightarrow>
                     nearest_marker content (start_idx + length start_pattern + 100)
                       [ [NL, NL] @ ustr ''# '' @ replicate 7 9552,
                        [NL, NL] @ ustr ''# SuperClaude'',
                        [NL, NL] @ ustr ''# Core Framework''])
              in take start_idx content @ new_section @ drop end_idx content)
         | None \<Rightarrow> content @ [NL] @ new_section)
      else
        (if content \<noteq> [] \<and> \<not> endswith_newline content then content @ [NL] else content)
          @ new_section)"

text \<open>\<open>while "\n\n\n" in content: content = content.replace("\n\n\n", "\n\n")\<close>.\<close>

function collapse_newlines :: "ustring \<Rightarrow> ustring" where
  "collapse_newlines content =
     (if contains content [NL, NL, NL]
      then collapse_newlines (replace content [NL, NL, NL] [NL, NL])
      else content)"
  by pat_completeness auto
termination
  by (relation "measure length") (auto intro: replace_shrinks)

declare collapse_newlines.simps [simp del]

text \<open>
  The text \<open>remove_mentat_section\<close> writes, or \<open>None\<close> when it returns without writing
  (no header in the text, or no start marker before it).
\<close>

definition remove_text :: "ustring \<Rightarrow> ustring option" where
  "remove_text content =
     (if \<not> contains content MENTAT_SECTION_HEADER then None
      else
        (case str_find content start_pattern 0 of
           Some start_idx \<Rightarrow>
             (let end_idx = nearest_marker content (start_idx + length start_pattern)
                              [NL # ustr ''# '' @ replicate 7 9552, [NL, NL] @ ustr ''# ''];
                  content = take start_idx content @ drop end_idx content
              in Some (collapse_newlines content))
         | None \<Rightarrow> None))"


subsection \<open>The file \<open>~/.claude/CLAUDE.md\<close>\<close>

text \<open>
  The host document on disk: its text and its permission bits; \<open>None\<close> is a missing
  file. Reads and writes are taken to succeed (a failing one raises, is logged, and the
  method returns \<open>False\<close> with nothing further done).
\<close>

record host_file =
  file_text :: ustring
  file_mode :: nat

text \<open>
  \<open>with open(path, 'w') as f: f.write(txt)\<close>: an existing file keeps its mode, a new one
  gets \<open>new_mode\<close>, the mode the process umask leaves of \<open>0o666\<close>.
\<close>

definition write_text :: "nat \<Rightarrow> host_file option \<Rightarrow> ustring \<Rightarrow> host_file" where
  "write_text new_mode f txt =
     (case f of
        None \<Rightarrow> \<lparr>file_text = txt, file_mode = new_mode\<rparr>
      | Some g \<Rightarrow> g\<lparr>file_text := txt\<rparr>)"

text \<open>\<open>update_claude_md\<close>: read or start empty, transform, write, \<open>chmod(0o644)\<close> (420).\<close>

definition update_claude_md ::
  "inventory \<Rightarrow> nat \<Rightarrow> host_file option \<Rightarrow> bool \<times> host_file option" where
  "update_claude_md comps new_mode f =
     (let content = (case f of Some g \<Rightarrow> file_text g | None \<Rightarrow> []);
          content = update_text comps content;
          g = write_text new_mode f content;
          g = g\<lparr>file_mode := 420\<rparr>
      in (True, Some g))"

text \<open>
  \<open>remove_mentat_section\<close>: nothing to do for a missing file or a text without the
  header; otherwise the text is rewritten. There is no \<open>chmod\<close> on this path.
\<close>

definition remove_mentat_section :: "nat \<Rightarrow> host_file option \<Rightarrow> bool \<times> host_file option" where
  "remove_mentat_section new_mode f =
     (case f of
        None \<Rightarrow> (True, None)
      | Some g \<Rightarrow>
          (case remove_text (file_text g) of
             None \<Rightarrow> (True, Some g)
           | Some content \<Rightarrow> (True, Some (write_text new_mode f content))))"

text \<open>An installation with no Mentat command, agent or script.\<close>

definition no_components :: inventory where
  "no_components = \<lparr>commands = [], agents = [], scripts = []\<rparr>"

section \<open>ssh\_auth.py: the remote authentication probe\<close>

text \<open>
  \<open>subprocess.run(["ssh", "-T", "git@github.com"], capture_output=True, text=True,
  timeout=10)\<close> either returns a completed process (exit status, stdout, stderr) or
  raises (\<open>TimeoutExpired\<close> after ten seconds, \<open>OSError\<close> when \<open>ssh\<close> is missing).
\<close>

datatype probe = Completed int ustring ustring | Raised

definition success_text :: ustring where
  "success_text = ustr ''successfully authenticated''"

text \<open>
  \<open>_verify_github_auth\<close>: \<open>True\<close> when the success text is in the probe's stderr; an
  exception is caught and logged, and the function falls through to \<open>return False\<close>.
\<close>

definition verify_github_auth :: "probe \<Rightarrow> bool" where
  "verify_github_auth p =
     (case p of
        Completed returncode out err \<Rightarrow> if contains err success_text then True else False
      | Raised \<Rightarrow> False)"

section \<open>mentat\_config.py: the account name\<close>

text \<open>
  The pattern \<open>^[a-zA-Z0-9]([a-zA-Z0-9-]{0,37}[a-zA-Z0-9])?$\<close>; \<open>re.match\<close> anchors
  it at the start.
\<close>

definition username_pattern :: "item list" where
  "username_pattern = [One alnum, Opt [Upto 37 alnum_hyphen, One alnum], End]"

text \<open>The list the source calls \<open>dangerous_chars\<close>; its last entry is the two dots.\<close>

definition dangerous_chars :: "ustring list" where
  "dangerous_chars =
     [ustr '';'', ustr ''|'', ustr ''&'', ustr ''$'', ustr ''`'', [92], [34], [39], [NL], [13],
      ustr ''<'', ustr ''>'', ustr ''/'', ustr ''..'']"

text \<open>\<open>_validate_github_username\<close>.\<close>

definition validate_github_username :: "ustring \<Rightarrow> bool" where
  "validate_github_username username =
     (if username = [] \<or> 39 < length username then False
      else if list_ex (contains username) dangerous_chars then False
      else re_match username_pattern username)"

section \<open>Scans, one character at a time\<close>

text \<open>
  The same scans, told the way they run: at each position the pattern is compared with
  the text character by character, and the first difference moves the scan one position
  on. \<open>find_try sub ps s cs i\<close> is the scan of \<open>sub\<close> at position \<open>i\<close>, where the text
  is \<open>s\<close>, with \<open>ps\<close> of the pattern still to be compared with \<open>cs\<close>; \<open>search_try\<close> and
  \<open>sub_try\<close> do the same for the literal a regular expression begins with. They are used
  to evaluate the source's functions on concrete documents.
\<close>

definition find_try :: "ustring \<Rightarrow> ustring \<Rightarrow> ustring \<Rightarrow> ustring \<Rightarrow> nat \<Rightarrow> nat option" where
  "find_try sub ps s cs i = (if startswith cs ps then Some i else find_at sub (tl s) (i + 1))"

definition search_try :: "ustring \<Rightarrow> item list \<Rightarrow> ustring \<Rightarrow> ustring \<Rightarrow> ustring \<Rightarrow> bool" where
  "search_try l r ps s cs =
     (if startswith cs ps then re_search (Lit l # r) s else re_search (Lit l # r) (tl s))"

definition sub_try :: "ustring \<Rightarrow> item list \<Rightarrow> ustring \<Rightarrow> ustring \<Rightarrow> ustring \<Rightarrow> ustring \<Rightarrow> ustring" where
  "sub_try l r repl ps s cs =
     (if startswith cs ps then re_sub (Lit l # r) repl s
      else hd s # re_sub (Lit l # r) repl (tl s))"

section \<open>Example documents\<close>

text \<open>\<open>occurs_at doc pat i\<close>: the text \<open>pat\<close> occurs in \<open>doc\<close> at index \<open>i\<close>.\<close>

definition occurs_at :: "ustring \<Rightarrow> ustring \<Rightarrow> nat \<Rightarrow> bool" where
  "occurs_at doc pat i = (i + length pat \<le> length doc \<and> take (length pat) (drop i doc) = pat)"

text \<open>
  A Mentat block reduced to its start marker, its header and its terminator line, the
  line not ended by a newline; and a document of two such blocks, one per line group,
  that ends without a final newline.
\<close>

definition bare_block :: ustring where
  "bare_block = start_pattern @ [NL] @ component_count"

definition two_blocks :: ustring where
  "two_blocks = bare_block @ [NL] @ bare_block"

text \<open>
  A document with two terminated blocks (at indices 0 and 103), five hundred characters
  of other text, and an orphan fragment at index 706: a sentinel line followed by a
  component count, with which the file ends.
\<close>

definition filler :: ustring where
  "filler = replicate 500 120"

definition orphan_fragment :: ustring where
  "orphan_fragment = NL # ustr ''# Mentat Commands (Dotfiles)'' @ NL # component_count"

definition orphan_doc :: ustring where
  "orphan_doc = bare_block @ NL # bare_block @ NL # filler @ orphan_fragment"

section \<open>Facts about searching\<close>

lemma startswith_iff: "startswith s p \<longleftrightarrow> (\<exists>t. s = p @ t)"
  by (induction s p rule: startswith.induct) auto

lemma find_at_None_iff:
  "find_at sub s i = None \<longleftrightarrow> (\<forall>pre post. s \<noteq> pre @ sub @ post)"
proof (induction s arbitrary: i)
  case Nil
  then show ?case by auto
next
  case (Cons c cs)
  show ?case
  proof (cases "startswith (c # cs) sub")
    case True
    then obtain t where "c # cs = sub @ t" by (auto simp: startswith_iff)
    then have "c # cs = [] @ sub @ t" by simp
    with True show ?thesis by (metis find_at.simps(2) option.distinct(1))
  next
    case False
    have "(\<forall>pre post. c # cs \<noteq> pre @ sub @ post) \<longleftrightarrow> (\<forall>pre post. cs \<noteq> pre @ sub @ post)"
    proof
      assume a: "\<forall>pre post. c # cs \<noteq> pre @ sub @ post"
      show "\<forall>pre post. cs \<noteq> pre @ sub @ post"
      proof (intro allI notI)
        fix pre post assume "cs = pre @ sub @ post"
        then have "c # cs = (c # pre) @ sub @ post" by simp
        with a show False by blast
      qed
    next
      assume a: "\<forall>pre post. cs \<noteq> pre @ sub @ post"
      show "\<forall>pre post. c # cs \<noteq> pre @ sub @ post"
      proof (intro allI notI)
        fix pre post assume e: "c # cs = pre @ sub @ post"
        show False
        proof (cases pre)
          case Nil
          with e have "startswith (c # cs) sub" by (auto simp: startswith_iff)
          with False show False by simp
        next
          case (Cons p ps)
          with e have "cs = ps @ sub @ post" by simp
          with a show False by blast
        qed
      qed
    qed
    with False Cons.IH [of "Suc i"] show ?thesis by simp
  qed
qed

lemma contains_iff: "contains s sub \<longleftrightarrow> (\<exists>pre post. s = pre @ sub @ post)"
  by (simp add: contains_def str_find_def find_at_None_iff)

section \<open>Facts for evaluating texts\<close>

lemma replicate_unfold: "replicate n x = (if n = 0 then [] else x # replicate (n - 1) x)"
  by (cases n) simp_all

lemma contains_tail: "contains d (c # p) \<Longrightarrow> contains d p"
proof -
  assume "contains d (c # p)"
  then obtain pre post where "d = pre @ (c # p) @ post" by (auto simp: contains_iff)
  then have "d = (pre @ [c]) @ p @ post" by simp
  then show ?thesis unfolding contains_iff by blast
qed

lemma find_all_absent: "\<not> contains d pat \<Longrightarrow> find_all d pat 0 = []"
  by (simp add: contains_def find_all.simps [of d pat 0])

lemma nothing_to_remove:
  assumes "\<not> contains d start_pattern"
    and "\<not> contains d (ustr ''# Mentat = Personal Claude Code customization framework'')"
    and "\<not> contains d (ustr ''# Mentat Commands (Dotfiles'')"
    and "\<not> contains d (ustr ''# Mentat Commands (Extensible)'')"
  shows "sections_to_remove d = []"
proof -
  have p: "find_all d start_pattern 0 = []" using assms(1) by (rule find_all_absent)
  have o: "find_all d q 0 = []" if "q \<in> set orphan_patterns" for q
    using that assms(2-4)
    by (auto simp: orphan_patterns_def dest: contains_tail intro!: find_all_absent)
  show ?thesis
    using o by (simp add: sections_to_remove_def p scan_orphans_def orphan_patterns_def)
qed

lemma clean_nothing_to_remove:
  "sections_to_remove d = [] \<Longrightarrow> clean_duplicate_sections d = d"
  by (simp add: clean_duplicate_sections_def sort_sections_def)

lemmas text_eval = contains_def str_find_def start_pattern_def MENTAT_SECTION_START_def
  MENTAT_SECTION_HEADER_def component_count_def ustr_def NL_def replicate_unfold
  nearest_marker_def

section \<open>Evaluating scans\<close>

lemma startswith_eq: "startswith (p # s) (p # ps) = startswith s ps"
  by simp

lemma startswith_ne: "c \<noteq> p \<Longrightarrow> startswith (c # s) (p # ps) = False"
  by simp

lemma find_at_start: "find_at (p # ps) (c # cs) i = find_try (p # ps) (p # ps) (c # cs) (c # cs) i"
  by (simp add: find_try_def)

lemma find_try_done: "find_try sub [] s cs i = Some i"
  by (simp add: find_try_def)

lemma find_try_eq: "find_try sub (p # ps) s (p # cs) i = find_try sub ps s cs i"
  by (simp add: find_try_def)

lemma find_try_ne: "c \<noteq> p \<Longrightarrow> find_try sub (p # ps) (x # xs) (c # cs) i = find_at sub xs (i + 1)"
  by (simp add: find_try_def)

lemma find_try_end: "find_try sub (p # ps) (x # xs) [] i = find_at sub xs (i + 1)"
  by (simp add: find_try_def)

lemma re_search_mismatch:
  "\<not> startswith (c # cs) l \<Longrightarrow> re_search (Lit l # r) (c # cs) = re_search (Lit l # r) cs"
  by simp

lemma re_sub_mismatch:
  "\<not> startswith (c # cs) l \<Longrightarrow> re_sub (Lit l # r) repl (c # cs) = c # re_sub (Lit l # r) repl cs"
  by (simp add: re_sub_Cons)

lemma search_start:
  "re_search (Lit (p # ps) # r) (c # cs) = search_try (p # ps) r (p # ps) (c # cs) (c # cs)"
  by (simp add: search_try_def)

lemma search_try_done:
  "search_try l r [] (x # xs) cs =
     (if rx (Lit l # r) (x # xs) \<noteq> None then True else re_search (Lit l # r) xs)"
  by (simp add: search_try_def)

lemma search_try_eq: "search_try l r (p # ps) s (p # cs) = search_try l r ps s cs"
  by (simp add: search_try_def)

lemma search_try_ne:
  "c \<noteq> p \<Longrightarrow> search_try l r (p # ps) (x # xs) (c # cs) = re_search (Lit l # r) xs"
  by (simp add: search_try_def)

lemma search_try_end: "search_try l r (p # ps) (x # xs) [] = re_search (Lit l # r) xs"
  by (simp add: search_try_def)

lemma sub_start:
  "re_sub (Lit (p # ps) # r) repl (c # cs) = sub_try (p # ps) r repl (p # ps) (c # cs) (c # cs)"
  by (simp add: sub_try_def re_sub_mismatch)

lemma sub_try_done:
  "sub_try l r repl [] (x # xs) cs =
     (case rx (Lit l # r) (x # xs) of
        Some t \<Rightarrow> if length t < Suc (length xs) then repl @ re_sub (Lit l # r) repl t
                  else repl @ x # re_sub (Lit l # r) repl xs
      | None \<Rightarrow> x # re_sub (Lit l # r) repl xs)"
  by (simp add: sub_try_def re_sub_Cons)

lemma sub_try_eq: "sub_try l r repl (p # ps) s (p # cs) = sub_try l r repl ps s cs"
  by (simp add: sub_try_def)

lemma sub_try_ne:
  "c \<noteq> p \<Longrightarrow> sub_try l r repl (p # ps) (x # xs) (c # cs) = x # re_sub (Lit l # r) repl xs"
  by (simp add: sub_try_def)

lemma sub_try_end:
  "sub_try l r repl (p # ps) (x # xs) [] = x # re_sub (Lit l # r) repl xs"
  by (simp add: sub_try_def)

lemma rx_Lit_Lit: "rx (Lit a # Lit b # r) s = rx (Lit (a @ b) # r) s"
proof -
  have "startswith s (a @ b) \<longleftrightarrow> startswith s a \<and> startswith (drop (length a) s) b"
    by (auto simp: startswith_iff)
  then show ?thesis by (simp add: add.commute)
qed

lemma re_sub_pat_cong: "(\<And>t. rx p t = rx q t) \<Longrightarrow> re_sub p repl s = re_sub q repl s"
proof (induction s rule: length_induct)
  case (1 s)
  show ?case
  proof (cases s)
    case Nil
    with 1 show ?thesis by (simp add: re_sub_Nil)
  next
    case (Cons c cs)
    have a: "re_sub p repl t = re_sub q repl t" if "length t < length s" for t
      using 1 that by blast
    show ?thesis
      using Cons a 1(2) rx_suffix_length [of q s]
      by (auto simp: re_sub_Cons split: option.splits)
  qed
qed

lemma re_sub_Lit_Lit: "re_sub (Lit a # Lit b # r) repl s = re_sub (Lit (a @ b) # r) repl s"
  by (rule re_sub_pat_cong) (rule rx_Lit_Lit)

lemmas scan_eval = find_at_start find_try_done find_try_eq find_try_ne find_try_end
  search_start search_try_done search_try_eq search_try_ne search_try_end
  sub_start sub_try_done sub_try_eq sub_try_ne sub_try_end re_sub_Nil
  startswith_eq startswith_ne

lemmas scan_del = find_at.simps(2) re_search.simps(2) startswith.simps(3)

lemma section_starts_with_block:
  "\<exists>rest. generate_mentat_section comps = NL # start_pattern @ NL # rest"
  by (simp add: generate_mentat_section_def start_pattern_def)

lemmas doc_eval = two_blocks_def bare_block_def text_eval scan_eval space_def newline_def

section \<open>claude\_config.py: a document with nothing to clean\<close>

text \<open>
  C10. A document with no occurrence of the start marker followed on the next line by
  the header, and no occurrence of any of the three orphan sentinel lines, is returned
  by \<open>_clean_duplicate_sections\<close> exactly as it is: nothing is recorded for removal, so
  the blank-line and divider clean-up is not reached.
\<close>

theorem clean_without_fragments_is_identity:
  assumes "\<not> contains d start_pattern"
    and "\<not> contains d (ustr ''# Mentat = Personal Claude Code customization framework'')"
    and "\<not> contains d (ustr ''# Mentat Commands (Dotfiles'')"
    and "\<not> contains d (ustr ''# Mentat Commands (Extensible)'')"
  shows "clean_duplicate_sections d = d"
proof -
  have "sections_to_remove d = []" using assms by (rule nothing_to_remove)
  then show ?thesis by (rule clean_nothing_to_remove)
qed

theorem clean_without_fragments_is_identity_witness:
  "clean_duplicate_sections
     (ustr ''# Notes'' @ [NL, NL, NL, NL, NL] @ MENTAT_SECTION_START @ [NL, NL] @ MENTAT_SECTION_END)
   = ustr ''# Notes'' @ [NL, NL, NL, NL, NL] @ MENTAT_SECTION_START @ [NL, NL] @ MENTAT_SECTION_END"
  by (rule clean_without_fragments_is_identity)
     (simp_all add: text_eval MENTAT_SECTION_END_def scan_eval del: scan_del)

section \<open>claude\_config.py: blank lines\<close>







section \<open>claude\_config.py: permission bits\<close>

text \<open>
  C6 on the code: \<open>update_claude_md\<close> leaves the file with mode \<open>0o644\<close> (420), but
  \<open>remove_mentat_section\<close> never changes the mode. A file of mode \<open>0o600\<close> (384) holding
  a block is rewritten and stays at \<open>0o600\<close>.
\<close>

theorem remove_mentat_section_keeps_mode:
  "map_option file_mode (snd (update_claude_md comps m f)) = Some 420
   \<and> map_option file_mode (snd (remove_mentat_section m f)) = map_option file_mode f
   \<and> remove_mentat_section m
        (Some \<lparr>file_text = ustr ''# Notes'' @ [NL] @ start_pattern @ [NL], file_mode = 384\<rparr>)
      = (True, Some \<lparr>file_text = ustr ''# Notes'' @ [NL], file_mode = 384\<rparr>)"
proof (intro conjI)
  show "map_option file_mode (snd (update_claude_md comps m f)) = Some 420"
    by (simp add: update_claude_md_def Let_def)
  show "map_option file_mode (snd (remove_mentat_section m f)) = map_option file_mode f"
    by (auto simp: remove_mentat_section_def write_text_def split: option.splits)
  show "remove_mentat_section m
        (Some \<lparr>file_text = ustr ''# Notes'' @ [NL] @ start_pattern @ [NL], file_mode = 384\<rparr>)
      = (True, Some \<lparr>file_text = ustr ''# Notes'' @ [NL], file_mode = 384\<rparr>)"
    by (simp add: remove_mentat_section_def write_text_def remove_text_def text_eval
          collapse_newlines.simps replace_def)
qed

section \<open>claude\_config.py: a freshly written section\<close>

lemmas section_eval = generate_mentat_section_def no_components_def MENTAT_SECTION_END_def
  format_commands_def format_agents_def format_scripts_def str_of_nat.simps
  text_eval scan_eval space_def newline_def

lemma fresh_section_sections:
  "sections_to_remove (generate_mentat_section no_components) = [(1, Proper)]"
  by (simp add: section_eval sections_to_remove_def scan_orphans_def orphan_patterns_def
        find_all.simps is_part_of_proper_def del: scan_del)

lemma fresh_section_removed:
  "remove_fragment (generate_mentat_section no_components) (Suc 0) = [NL]"
  by (simp add: section_eval remove_fragment_def del: scan_del)

lemma newline_tidy:
  "collapse_blank_lines [NL] = [NL]"
  "remove_empty_dividers [NL] = [NL]"
  "re_sub lone_divider [NL, NL] [NL] = [NL]"
  by (simp_all add: text_eval scan_eval space_def newline_def collapse_blank_lines.simps
        remove_empty_dividers.simps divider_pattern_def lone_divider_def re_sub_Lit_Lit
        del: scan_del)

lemma fresh_section_clean:
  "clean_duplicate_sections (generate_mentat_section no_components) = [NL]"
  by (simp add: clean_duplicate_sections_def fresh_section_sections sort_sections_def
        fresh_section_removed newline_tidy)

lemma update_empty: "update_text comps [] = generate_mentat_section comps"
proof -
  have "clean_duplicate_sections [] = []"
    by (rule clean_nothing_to_remove, rule nothing_to_remove) (simp_all add: text_eval)
  moreover have "\<not> contains [] MENTAT_SECTION_HEADER" by (simp add: text_eval)
  ultimately show ?thesis by (simp add: update_text_def)
qed

text \<open>
  C1 on the code. With no components installed, updating a missing or empty document
  writes the generated section, which begins with a newline. Updating that document
  again removes the block from its start marker to the end of the component count,
  keeps the newline before it, and appends the fresh section: the second result is the
  first with one more newline in front.
\<close>

theorem update_twice_adds_newline:
  "update_text no_components [] = generate_mentat_section no_components
   \<and> update_text no_components (update_text no_components [])
       = NL # generate_mentat_section no_components
   \<and> update_text no_components (update_text no_components []) \<noteq> update_text no_components []"
proof -
  have h: "\<not> contains [NL] MENTAT_SECTION_HEADER" by (simp add: text_eval)
  have "update_text no_components (generate_mentat_section no_components)
      = NL # generate_mentat_section no_components"
    by (simp add: update_text_def fresh_section_clean h endswith_newline_def)
  then show ?thesis by (simp add: update_empty)
qed

lemma fresh_section_finds:
  "contains (generate_mentat_section no_components) MENTAT_SECTION_HEADER"
  "str_find (generate_mentat_section no_components) start_pattern 0 = Some 1"
  "nearest_marker (generate_mentat_section no_components) (Suc (length start_pattern))
     [NL # ustr ''# '' @ replicate 7 9552, NL # NL # ustr ''# ''] = 84"
  by (simp_all add: section_eval del: scan_del)

lemma fresh_section_rest:
  "collapse_newlines (NL # drop 84 (generate_mentat_section no_components))
     = NL # drop 84 (generate_mentat_section no_components)"
  by (simp add: section_eval collapse_newlines.simps del: scan_del)

text \<open>
  C3 on the code. \<open>remove_mentat_section\<close> looks for the end of the block from just
  after the header, and the first marker it tries, a newline followed by a divider, is
  the block's own closing divider. Of the section \<open>update_claude_md\<close> wrote only the
  start marker and the header (indices 1 to 83) are removed; the closing divider and the
  whole body stay, the sentinel lines among them.
\<close>

theorem remove_leaves_section_body:
  "remove_text (update_text no_components [])
     = Some (NL # drop 84 (generate_mentat_section no_components))
   \<and> contains (NL # drop 84 (generate_mentat_section no_components))
        (ustr ''# Mentat = Personal Claude Code customization framework'')
   \<and> contains (NL # drop 84 (generate_mentat_section no_components))
        (ustr ''# Mentat Commands (Extensible)'')"
proof (intro conjI)
  have t: "take (Suc 0) (generate_mentat_section no_components) = [NL]"
    by (simp add: generate_mentat_section_def)
  show "remove_text (update_text no_components [])
     = Some (NL # drop 84 (generate_mentat_section no_components))"
    by (simp add: update_empty remove_text_def fresh_section_finds t fresh_section_rest)
  show "contains (NL # drop 84 (generate_mentat_section no_components))
        (ustr ''# Mentat = Personal Claude Code customization framework'')"
    by (simp add: section_eval del: scan_del)
  show "contains (NL # drop 84 (generate_mentat_section no_components))
        (ustr ''# Mentat Commands (Extensible)'')"
    by (simp add: section_eval del: scan_del)
qed

section \<open>claude\_config.py: a document that ends without a newline\<close>

lemma two_blocks_sections: "sections_to_remove two_blocks = [(0, Proper), (103, Proper)]"
  by (simp add: doc_eval sections_to_remove_def scan_orphans_def orphan_patterns_def
        find_all.simps is_part_of_proper_def del: scan_del)

lemma two_blocks_remove_second:
  "remove_fragment two_blocks 103 = bare_block @ NL # two_blocks"
  by (simp add: doc_eval remove_fragment_def del: scan_del)

lemma two_blocks_remove_first:
  "remove_fragment (bare_block @ NL # two_blocks) 0 = two_blocks"
  by (simp add: doc_eval remove_fragment_def del: scan_del)

lemma two_blocks_tidy:
  "collapse_blank_lines two_blocks = two_blocks"
  "remove_empty_dividers two_blocks = two_blocks"
  "re_sub lone_divider [NL, NL] two_blocks = two_blocks"
  by (simp_all add: doc_eval collapse_blank_lines.simps remove_empty_dividers.simps
        divider_pattern_def lone_divider_def re_sub_Lit_Lit del: scan_del)

lemma two_blocks_clean: "clean_duplicate_sections two_blocks = two_blocks"
  by (simp add: clean_duplicate_sections_def two_blocks_sections sort_sections_def
        two_blocks_remove_second two_blocks_remove_first two_blocks_tidy)

lemma two_blocks_finds:
  "contains two_blocks MENTAT_SECTION_HEADER"
  "str_find two_blocks start_pattern 0 = Some 0"
  "str_find two_blocks component_count 0 = Some 84"
  "str_find two_blocks [NL] 84 = Some 102"
  "drop 103 two_blocks = bare_block"
  by (simp_all add: doc_eval del: scan_del)

text \<open>
  C2 on the code. The document holds two blocks and ends right after the second
  block's component count. In the clean-up pass the end of the second block is
  \<open>find("\n", ...) + 1 = 0\<close>, so its removal prepends a copy of the text before it; the
  removal of the first block then gives the document back unchanged.
  \<open>update_claude_md\<close> replaces the first block by the fresh section and the second one
  stays: the result has the start marker followed by the header at index 1 and again
  right after the fresh section.
\<close>

theorem update_keeps_unterminated_block:
  "update_text comps two_blocks = generate_mentat_section comps @ bare_block
   \<and> occurs_at (update_text comps two_blocks) start_pattern 1
   \<and> occurs_at (update_text comps two_blocks) start_pattern (length (generate_mentat_section comps))
   \<and> 1 < length (generate_mentat_section comps)"
proof -
  have u: "update_text comps two_blocks = generate_mentat_section comps @ bare_block"
    by (simp add: update_text_def two_blocks_clean two_blocks_finds)
  obtain rest where g: "generate_mentat_section comps = NL # start_pattern @ NL # rest"
    using section_starts_with_block by blast
  have "occurs_at (generate_mentat_section comps @ bare_block) start_pattern 1"
    by (simp add: occurs_at_def g)
  moreover have "occurs_at (generate_mentat_section comps @ bare_block) start_pattern
      (length (generate_mentat_section comps))"
    by (simp add: occurs_at_def bare_block_def)
  moreover have "1 < length (generate_mentat_section comps)"
    by (simp add: g start_pattern_def)
  ultimately show ?thesis using u by simp
qed

section \<open>claude\_config.py: two blocks and an orphan fragment\<close>

lemmas orphan_eval = orphan_doc_def orphan_fragment_def filler_def bare_block_def
  text_eval scan_eval space_def newline_def

lemma orphan_doc_blocks: "find_all orphan_doc start_pattern 0 = [0, 103]"
  by (simp add: orphan_eval find_all.simps del: scan_del)

lemma orphan_doc_sections:
  "sections_to_remove orphan_doc = [(0, Proper), (103, Proper), (706, Orphan)]"
  by (simp add: orphan_eval sections_to_remove_def scan_orphans_def orphan_patterns_def
        find_all.simps is_part_of_proper_def del: scan_del)

lemma orphan_doc_remove_orphan:
  "remove_fragment orphan_doc 706 = bare_block @ NL # bare_block @ NL # filler @ orphan_doc"
  by (simp add: orphan_eval remove_fragment_def del: scan_del)

lemma orphan_doc_remove_second:
  "remove_fragment (bare_block @ NL # bare_block @ NL # filler @ orphan_doc) 103
     = bare_block @ NL # filler @ orphan_doc"
  by (simp add: orphan_eval remove_fragment_def del: scan_del)

lemma orphan_doc_remove_first:
  "remove_fragment (bare_block @ NL # filler @ orphan_doc) 0 = filler @ orphan_doc"
  by (simp add: orphan_eval remove_fragment_def del: scan_del)

lemma orphan_doc_tidy:
  "collapse_blank_lines (filler @ orphan_doc) = filler @ orphan_doc"
  "remove_empty_dividers (filler @ orphan_doc) = filler @ orphan_doc"
  "re_sub lone_divider [NL, NL] (filler @ orphan_doc) = filler @ orphan_doc"
  by (simp_all add: orphan_eval collapse_blank_lines.simps remove_empty_dividers.simps
        divider_pattern_def lone_divider_def re_sub_Lit_Lit del: scan_del)

lemma orphan_doc_clean: "clean_duplicate_sections orphan_doc = filler @ orphan_doc"
  by (simp add: clean_duplicate_sections_def orphan_doc_sections sort_sections_def
        orphan_doc_remove_orphan orphan_doc_remove_second orphan_doc_remove_first
        orphan_doc_tidy)

lemma orphan_doc_finds:
  "contains (filler @ orphan_doc) MENTAT_SECTION_HEADER"
  "str_find (filler @ orphan_doc) start_pattern 0 = Some 500"
  "str_find (filler @ orphan_doc) component_count 500 = Some 584"
  "str_find (filler @ orphan_doc) [NL] 584 = Some 602"
  "drop 103 orphan_doc = bare_block @ NL # filler @ orphan_fragment"
  by (simp_all add: orphan_eval del: scan_del)

text \<open>
  C4 on the code. The document has exactly two proper blocks and one orphan fragment,
  706 being more than 500 past both block offsets. The orphan's component count ends
  the file, so its end is computed as \<open>0\<close> and its removal prepends the text before it;
  the two blocks of that copy are then removed, and what is left is the other text
  followed by the whole original document. \<open>update_claude_md\<close> replaces the first block
  it finds. The result has two proper blocks (the fresh one and the old second one) and
  still has the orphan sentinel.
\<close>

theorem update_keeps_block_and_orphan:
  "find_all orphan_doc start_pattern 0 = [0, 103]
   \<and> sections_to_remove orphan_doc = [(0, Proper), (103, Proper), (706, Orphan)]
   \<and> update_text comps orphan_doc
       = filler @ generate_mentat_section comps @ bare_block @ NL # filler @ orphan_fragment
   \<and> occurs_at (update_text comps orphan_doc) start_pattern 501
   \<and> occurs_at (update_text comps orphan_doc) start_pattern
         (500 + length (generate_mentat_section comps))
   \<and> contains (update_text comps orphan_doc) (ustr ''# Mentat Commands (Dotfiles'')"
proof -
  let ?g = "generate_mentat_section comps"
  let ?r = "filler @ ?g @ bare_block @ NL # filler @ orphan_fragment"
  have l: "length filler = 500" by (simp add: filler_def)
  have u: "update_text comps orphan_doc = ?r"
    by (simp add: update_text_def orphan_doc_clean orphan_doc_finds l)
  obtain rest where g: "?g = NL # start_pattern @ NL # rest"
    using section_starts_with_block by blast
  have o1: "occurs_at ?r start_pattern 501"
    by (simp add: occurs_at_def g l)
  have o2: "occurs_at ?r start_pattern (500 + length ?g)"
    by (simp add: occurs_at_def l bare_block_def)
  have "?r = (filler @ ?g @ bare_block @ NL # filler @ [NL])
      @ ustr ''# Mentat Commands (Dotfiles'' @ (ustr '')'' @ NL # component_count)"
    by (simp add: orphan_fragment_def ustr_def)
  then have c: "contains ?r (ustr ''# Mentat Commands (Dotfiles'')"
    unfolding contains_iff by blast
  show ?thesis
    using orphan_doc_blocks orphan_doc_sections o1 o2 c unfolding u by simp
qed

section \<open>mentat\_config.py: the account name grammar\<close>

lemma contains_single: "contains s [d] \<longleftrightarrow> d \<in> set s"
  by (auto simp: contains_iff in_set_conv_decomp)

lemma rx_End_iff: "rx [End] t \<noteq> None \<longleftrightarrow> t = [] \<or> t = [NL]"
  by simp

lemma rx_Upto_iff:
  "rx (Upto n p # r) s \<noteq> None \<longleftrightarrow>
     (\<exists>k\<le>n. k \<le> length s \<and> (\<forall>c\<in>set (take k s). p c) \<and> rx r (drop k s) \<noteq> None)"
proof (induction s arbitrary: n)
  case Nil
  then show ?case by auto
next
  case (Cons c cs)
  show ?case
  proof (cases "n \<noteq> 0 \<and> p c")
    case True
    then obtain m where n: "n = Suc m" by (cases n) auto
    have "rx (Upto n p # r) (c # cs) \<noteq> None \<longleftrightarrow>
            rx (Upto m p # r) cs \<noteq> None \<or> rx r (c # cs) \<noteq> None"
      using True n by (auto split: option.splits)
    also have "\<dots> \<longleftrightarrow> (\<exists>k\<le>m. k \<le> length cs \<and> (\<forall>c\<in>set (take k cs). p c) \<and> rx r (drop k cs) \<noteq> None)
                      \<or> rx r (c # cs) \<noteq> None"
      by (simp only: Cons.IH)
    also have "\<dots> \<longleftrightarrow> (\<exists>k\<le>n. k \<le> length (c # cs) \<and> (\<forall>x\<in>set (take k (c # cs)). p x)
                      \<and> rx r (drop k (c # cs)) \<noteq> None)" (is "?L \<longleftrightarrow> ?R")
    proof
      assume ?L
      then show ?R
      proof
        assume "\<exists>k\<le>m. k \<le> length cs \<and> (\<forall>c\<in>set (take k cs). p c) \<and> rx r (drop k cs) \<noteq> None"
        then obtain k where "k \<le> m" "k \<le> length cs" "\<forall>c\<in>set (take k cs). p c" "rx r (drop k cs) \<noteq> None"
          by blast
        with True n show ?R by (intro exI [of _ "Suc k"]) simp
      next
        assume "rx r (c # cs) \<noteq> None"
        then show ?R by (intro exI [of _ 0]) simp
      qed
    next
      assume ?R
      then obtain k where k: "k \<le> n" "k \<le> length (c # cs)" "\<forall>x\<in>set (take k (c # cs)). p x"
        "rx r (drop k (c # cs)) \<noteq> None" by blast
      show ?L
      proof (cases k)
        case 0
        with k show ?thesis by simp
      next
        case (Suc j)
        with k n have "j \<le> m \<and> j \<le> length cs \<and> (\<forall>c\<in>set (take j cs). p c) \<and> rx r (drop j cs) \<noteq> None"
          by simp
        then show ?thesis by blast
      qed
    qed
    finally show ?thesis .
  next
    case False
    have "(\<exists>k\<le>n. k \<le> length (c # cs) \<and> (\<forall>x\<in>set (take k (c # cs)). p x)
             \<and> rx r (drop k (c # cs)) \<noteq> None) \<longleftrightarrow> rx r (c # cs) \<noteq> None" (is "?R \<longleftrightarrow> ?B")
    proof
      assume ?R
      then obtain k where k: "k \<le> n" "k \<le> length (c # cs)" "\<forall>x\<in>set (take k (c # cs)). p x"
        "rx r (drop k (c # cs)) \<noteq> None" by blast
      have "k = 0"
      proof (cases k)
        case (Suc j)
        with k False show ?thesis by auto
      qed simp
      with k show ?B by simp
    next
      assume ?B
      then show ?R by (intro exI [of _ 0]) simp
    qed
    with False show ?thesis by auto
  qed
qed

lemma alnum_not_hyphen: "alnum c \<Longrightarrow> c \<noteq> 45"
  by (auto simp: alnum_def)

lemma alnum_hyphen_no_danger:
  "(\<forall>c\<in>set s. alnum_hyphen c) \<Longrightarrow> \<not> list_ex (contains s) dangerous_chars"
proof -
  assume a: "\<forall>c\<in>set s. alnum_hyphen c"
  have single: "\<not> contains s [d]" if "\<not> alnum_hyphen d" for d
    using a that by (auto simp: contains_single)
  have dots: "\<not> contains s [46, 46]"
  proof
    assume "contains s [46, 46]"
    then have "contains s [46]" by (rule contains_tail)
    moreover have "\<not> alnum_hyphen 46" by (simp add: alnum_hyphen_def alnum_def)
    ultimately show False using single by blast
  qed
  show ?thesis
    using dots
    by (auto simp: dangerous_chars_def ustr_def NL_def list_ex_iff
          intro!: single simp: alnum_hyphen_def alnum_def)
qed

lemma username_shape:
  "re_match username_pattern s \<longleftrightarrow>
     (\<exists>c cs. s = c # cs \<and> alnum c \<and>
        (cs = [] \<or> cs = [NL] \<or>
         (\<exists>k\<le>37. k \<le> length cs \<and> (\<forall>x\<in>set (take k cs). alnum_hyphen x) \<and>
            (\<exists>c'. alnum c' \<and> (drop k cs = [c'] \<or> drop k cs = [c', NL])))))"
proof (cases s)
  case Nil
  then show ?thesis by (simp add: re_match_def username_pattern_def)
next
  case (Cons c cs)
  have one: "rx [One alnum, End] t \<noteq> None \<longleftrightarrow> (\<exists>c'. alnum c' \<and> (t = [c'] \<or> t = [c', NL]))" for t
    by (cases t) auto
  have "re_match username_pattern s \<longleftrightarrow>
      alnum c \<and> (rx (Upto 37 alnum_hyphen # [One alnum, End]) cs \<noteq> None \<or> rx [End] cs \<noteq> None)"
    using Cons by (auto simp: re_match_def username_pattern_def split: option.splits)
  also have "\<dots> \<longleftrightarrow> alnum c \<and>
      ((\<exists>k\<le>37. k \<le> length cs \<and> (\<forall>x\<in>set (take k cs). alnum_hyphen x) \<and>
            (\<exists>c'. alnum c' \<and> (drop k cs = [c'] \<or> drop k cs = [c', NL])))
       \<or> cs = [] \<or> cs = [NL])"
    by (simp only: rx_Upto_iff one rx_End_iff)
  finally show ?thesis using Cons by auto
qed

lemma validate_github_username_iff:
  "validate_github_username s \<longleftrightarrow>
     1 \<le> length s \<and> length s \<le> 39
     \<and> (\<forall>c\<in>set s. alnum c \<or> c = 45)
     \<and> \<not> (\<exists>t. s = 45 # t) \<and> \<not> (\<exists>t. s = t @ [45])
     \<and> (\<forall>d\<in>set dangerous_chars. \<not> contains s d)" (is "?V \<longleftrightarrow> ?S")
proof
  assume v: ?V
  then have ne: "s \<noteq> []" and len: "length s \<le> 39"
    and nd: "\<not> list_ex (contains s) dangerous_chars" and m: "re_match username_pattern s"
    by (auto simp: validate_github_username_def split: if_splits)
  from nd have "\<not> contains s [NL]" by (simp add: dangerous_chars_def)
  then have nl: "NL \<notin> set s" by (simp add: contains_single)
  from m obtain c cs where s: "s = c # cs" and c: "alnum c"
    and r: "cs = [] \<or> cs = [NL] \<or>
         (\<exists>k\<le>37. k \<le> length cs \<and> (\<forall>x\<in>set (take k cs). alnum_hyphen x) \<and>
            (\<exists>c'. alnum c' \<and> (drop k cs = [c'] \<or> drop k cs = [c', NL])))"
    unfolding username_shape by blast
  from r nl s have "cs = [] \<or> (\<exists>k c'. (\<forall>x\<in>set (take k cs). alnum_hyphen x) \<and> alnum c'
      \<and> drop k cs = [c'])"
    by (metis in_set_dropD list.set_intros(1,2))
  then have shape: "(\<forall>x\<in>set s. alnum x \<or> x = 45) \<and> \<not> (\<exists>t. s = t @ [45])"
  proof
    assume "cs = []"
    with s c show ?thesis by (auto dest: alnum_not_hyphen)
  next
    assume "\<exists>k c'. (\<forall>x\<in>set (take k cs). alnum_hyphen x) \<and> alnum c' \<and> drop k cs = [c']"
    then obtain k c' where k: "\<forall>x\<in>set (take k cs). alnum_hyphen x" "alnum c'" "drop k cs = [c']"
      by blast
    then have cs: "cs = take k cs @ [c']" by (metis append_take_drop_id)
    then have "s = (c # take k cs) @ [c']" using s by simp
    moreover have "\<forall>x\<in>set (c # take k cs @ [c']). alnum x \<or> x = 45"
      using k c by (auto simp: alnum_hyphen_def)
    ultimately show ?thesis using k(2) cs s
      by (metis alnum_not_hyphen append_Cons snoc_eq_iff_butlast)
  qed
  from s c have "\<not> (\<exists>t. s = 45 # t)" by (auto dest: alnum_not_hyphen)
  with ne len shape nd show ?S
    by (cases s) (auto simp: list_ex_iff)
next
  assume ?S
  then have len: "1 \<le> length s" "length s \<le> 39"
    and cls: "\<forall>c\<in>set s. alnum c \<or> c = 45"
    and first: "\<not> (\<exists>t. s = 45 # t)" and lst: "\<not> (\<exists>t. s = t @ [45])"
    and nd: "\<forall>d\<in>set dangerous_chars. \<not> contains s d"
    by blast+
  from len obtain c cs where s: "s = c # cs" by (cases s) auto
  with first cls have c: "alnum c" by auto
  have "cs = [] \<or> (\<exists>k\<le>37. k \<le> length cs \<and> (\<forall>x\<in>set (take k cs). alnum_hyphen x) \<and>
            (\<exists>c'. alnum c' \<and> drop k cs = [c']))"
  proof (cases "cs = []")
    case False
    then have bl: "cs = butlast cs @ [last cs]" by simp
    then have "s = (c # butlast cs) @ [last cs]" using s by simp
    with lst have "last cs \<noteq> 45" by metis
    moreover have "last cs \<in> set s" using False s by simp
    ultimately have l: "alnum (last cs)" using cls by blast
    have "length cs - 1 \<le> 37" using len s by simp
    moreover have "take (length cs - 1) cs = butlast cs" by (simp add: butlast_conv_take)
    moreover have "drop (length cs - 1) cs = [last cs]"
      using False by (metis bl append_eq_conv_conj length_butlast)
    moreover have "\<forall>x\<in>set (butlast cs). alnum_hyphen x"
      using cls s by (auto simp: alnum_hyphen_def dest: in_set_butlastD)
    ultimately show ?thesis using l by (intro disjI2 exI [of _ "length cs - 1"]) auto
  qed simp
  with s c have "re_match username_pattern s" unfolding username_shape by blast
  moreover have "\<not> list_ex (contains s) dangerous_chars" using nd by (simp add: list_ex_iff)
  ultimately show ?V using len s by (simp add: validate_github_username_def)
qed


text \<open>
  C7. \<open>_validate_github_username\<close> accepts a string exactly when it has 1 to 39
  characters, each an ASCII letter, a digit or a hyphen, does not begin or end with a
  hyphen, and contains none of the shell metacharacters of \<open>dangerous_chars\<close> (the
  two dots among them). \<open>abc123\<close> is accepted; \<open>robert'; rm -rf\<close> and \<open>-abc\<close> are
  rejected.
\<close>

theorem validate_github_username_grammar:
  "(validate_github_username s \<longleftrightarrow>
      1 \<le> length s \<and> length s \<le> 39
      \<and> (\<forall>c\<in>set s. alnum c \<or> c = 45)
      \<and> \<not> (\<exists>t. s = 45 # t) \<and> \<not> (\<exists>t. s = t @ [45])
      \<and> (\<forall>d\<in>set dangerous_chars. \<not> contains s d))
   \<and> validate_github_username (ustr ''abc123'')
   \<and> \<not> validate_github_username (ustr ''robert'; rm -rf'')
   \<and> \<not> validate_github_username (ustr ''-abc'')"
proof (intro conjI)
  show "validate_github_username s \<longleftrightarrow>
      1 \<le> length s \<and> length s \<le> 39
      \<and> (\<forall>c\<in>set s. alnum c \<or> c = 45)
      \<and> \<not> (\<exists>t. s = 45 # t) \<and> \<not> (\<exists>t. s = t @ [45])
      \<and> (\<forall>d\<in>set dangerous_chars. \<not> contains s d)"
    by (rule validate_github_username_iff)
  have "\<forall>c\<in>set (ustr ''abc123''). alnum_hyphen c"
    by (simp add: ustr_def alnum_hyphen_def alnum_def)
  then have "\<forall>d\<in>set dangerous_chars. \<not> contains (ustr ''abc123'') d"
    using alnum_hyphen_no_danger by (auto simp: list_ex_iff)
  then show "validate_github_username (ustr ''abc123'')"
    unfolding validate_github_username_iff
    by (simp add: ustr_def alnum_def snoc_eq_iff_butlast)
  show "\<not> validate_github_username (ustr ''robert'; rm -rf'')"
    unfolding validate_github_username_iff by (simp add: ustr_def alnum_def)
  show "\<not> validate_github_username (ustr ''-abc'')"
    unfolding validate_github_username_iff by (simp add: ustr_def)
qed

theorem validate_github_username_grammar_witness:
  "validate_github_username (ustr ''octo-cat'')"
  using validate_github_username_grammar [of "ustr ''octo-cat''"]
  by (simp add: ustr_def alnum_def snoc_eq_iff_butlast dangerous_chars_def NL_def
        contains_def str_find_def)

section \<open>ssh\_auth.py: verification by the probe's output\<close>

text \<open>
  C8. For a probe that completes within the timeout, \<open>_verify_github_auth\<close> reports
  verified exactly when the probe's stderr contains the text
  \<open>successfully authenticated\<close>, whatever the exit status; in particular a probe with
  exit status 1 whose stderr holds the text is reported verified.
\<close>

theorem verify_github_auth_by_stderr_only:
  "(verify_github_auth (Completed returncode out err)
      \<longleftrightarrow> (\<exists>pre post. err = pre @ success_text @ post))
   \<and> verify_github_auth
        (Completed 1 [] (ustr ''Hi octocat! You've successfully authenticated, but GitHub does not provide shell access.''))"
proof
  show "verify_github_auth (Completed returncode out err)
      \<longleftrightarrow> (\<exists>pre post. err = pre @ success_text @ post)"
    by (simp add: verify_github_auth_def contains_iff)
  show "verify_github_auth
        (Completed 1 [] (ustr ''Hi octocat! You've successfully authenticated, but GitHub does not provide shell access.''))"
    by (simp add: verify_github_auth_def contains_def str_find_def success_text_def ustr_def)
qed

end
